theory Spec2Isabelle
  imports Main "HOL-Library.Sublist"
begin

section \<open>Python strings\<close>

text \<open>
  A Python \<open>str\<close> is a sequence of Unicode code points.  The program classifies characters
  by code point (\<open>str.strip\<close>, \<open>str.splitlines\<close>, the regex classes \<open>\s\<close> and \<open>\w\<close>), so a
  text is modelled as a list of code points.  \<open>lit\<close> turns an ASCII literal of the source
  into such a list.
\<close>

type_synonym pystr = "nat list"

definition lit :: "string \<Rightarrow> pystr" where
  "lit s = map of_char s"

text \<open>
  \<open>str.find(sub)\<close> on a suffix of the text: the least index at which \<open>sub\<close> occurs, if any.
  \<open>str.rfind(sub)\<close>: the greatest one.
\<close>

fun find_first :: "pystr \<Rightarrow> pystr \<Rightarrow> nat option" where
  "find_first sub [] = (if sub = [] then Some 0 else None)"
| "find_first sub (x # xs) =
     (if prefix sub (x # xs) then Some 0 else map_option Suc (find_first sub xs))"

fun find_last :: "pystr \<Rightarrow> pystr \<Rightarrow> nat option" where
  "find_last sub [] = (if sub = [] then Some 0 else None)"
| "find_last sub (x # xs) =
     (case find_last sub xs of
        Some j \<Rightarrow> Some (Suc j)
      | None \<Rightarrow> if prefix sub (x # xs) then Some 0 else None)"

text \<open>The search of a compiled pattern or of \<open>str.find\<close> from a position \<open>pos \<ge> 0\<close>.\<close>

definition find_from :: "pystr \<Rightarrow> pystr \<Rightarrow> nat \<Rightarrow> nat option" where
  "find_from sub text pos =
     (if pos \<le> length text then map_option ((+) pos) (find_first sub (drop pos text))
      else None)"

text \<open>
  \<open>text.find(sub, start)\<close> with Python's treatment of the start index: a negative start
  counts from the end and is clamped to 0; a start beyond the end finds nothing.
  The result is the index, or \<open>-1\<close>.
\<close>

definition py_find :: "pystr \<Rightarrow> pystr \<Rightarrow> int \<Rightarrow> int" where
  "py_find text sub start =
     (let st = (if start < 0 then max 0 (int (length text) + start) else start)
      in case find_from sub text (nat st) of None \<Rightarrow> - 1 | Some i \<Rightarrow> int i)"

definition py_rfind :: "pystr \<Rightarrow> pystr \<Rightarrow> int" where
  "py_rfind text sub = (case find_last sub text of None \<Rightarrow> - 1 | Some i \<Rightarrow> int i)"

text \<open>\<open>text[a:b]\<close>: negative indices count from the end, both are clamped to the text.\<close>

definition slice_index :: "nat \<Rightarrow> int \<Rightarrow> nat" where
  "slice_index n i = (if i < 0 then nat (max 0 (int n + i)) else min n (nat i))"

definition py_slice :: "pystr \<Rightarrow> int \<Rightarrow> int \<Rightarrow> pystr" where
  "py_slice text a b =
     (let lo = slice_index (length text) a; hi = slice_index (length text) b
      in take (hi - lo) (drop lo text))"

section \<open>The doc comment extractor (\<open>llm.py\<close>, \<open>extract_doc_comment\<close>)\<close>

text \<open>
  \<open>re.finditer(r"/\*\*[\s\S]*?\*/", text)\<close>.  The pattern is the literal \<open>/**\<close>, a lazy run
  of arbitrary characters (\<open>[\s\S]\<close> is every character, newlines too) and the literal
  \<open>*/\<close>.  A match that starts at \<open>s\<close> therefore ends with the first \<open>*/\<close> that begins at
  \<open>s + 3\<close> or later (the end marker cannot share a character with the start marker), the
  scan is leftmost first, and it resumes where the last match ended.  When the leftmost
  start marker has no end marker behind it no later one has, and the scan is over.
  A match is the pair of its start and end offsets, \<open>m.span()\<close>.
\<close>

function finditer_doc :: "pystr \<Rightarrow> nat \<Rightarrow> (nat \<times> nat) list" where
  "finditer_doc text pos =
     (case find_from (lit ''/**'') text pos of
        None \<Rightarrow> []
      | Some s \<Rightarrow>
          (case find_from (lit ''*/'') text (s + 3) of
             None \<Rightarrow> []
           | Some e \<Rightarrow> (s, e + 2) # finditer_doc text (e + 2)))"
  by pat_completeness auto

lemma find_first_bound:
  "find_first sub xs = Some i \<Longrightarrow> i + length sub \<le> length xs"
proof (induction xs arbitrary: i)
  case Nil
  then show ?case by (simp split: if_splits)
next
  case (Cons x xs)
  show ?case
  proof (cases "prefix sub (x # xs)")
    case True
    with Cons.prems have "i = 0" by simp
    with True show ?thesis by (auto dest: prefix_length_le)
  next
    case False
    with Cons.prems obtain j where "find_first sub xs = Some j" "i = Suc j" by auto
    with Cons.IH show ?thesis by fastforce
  qed
qed

lemma find_from_bound:
  "find_from sub text pos = Some i \<Longrightarrow> pos \<le> i \<and> i + length sub \<le> length text"
  by (auto simp: find_from_def split: if_splits dest!: find_first_bound)

lemma length_lit [simp]: "length (lit s) = length s"
  by (simp add: lit_def)

termination finditer_doc
proof (relation "measure (\<lambda>(text, pos). Suc (length text) - pos)")
  show "wf (measure (\<lambda>(text, pos). Suc (length text) - pos))" by simp
next
  fix t :: pystr and pos s e :: nat
  assume "find_from (lit ''/**'') t pos = Some s"
    and "find_from (lit ''*/'') t (s + 3) = Some e"
  then have "pos \<le> s" "s + 3 \<le> e" "e + 2 \<le> length t"
    by (auto dest!: find_from_bound)
  then show "((t, e + 2), (t, pos)) \<in> measure (\<lambda>(text, pos). Suc (length text) - pos)"
    by simp
qed

declare finditer_doc.simps [simp del]

text \<open>What the program prints, as far as the properties below speak about it.\<close>

datatype event =
    ExtractWarning
  | NotStandardWarning pystr
  | AlreadyDocumented pystr
  | AskGenerate pystr
  | TooManyTokens pystr
  | RawOutput pystr
  | Generated pystr
  | DeepseekSending
  | DeepseekRawResponse pystr
  | DeepseekFailed

text \<open>
  \<open>extract_doc_comment\<close> returns the text of the last match, \<open>matches[-1].group(0)\<close>.
  Without a match it prints a warning and falls back to the span from the last \<open>/**\<close> to
  the first \<open>*/\<close> found from there, and to the whole text when either search fails.
  The function is modelled with what it prints: the pair of the printed events and the
  returned text.
\<close>

definition group0 :: "pystr \<Rightarrow> nat \<times> nat \<Rightarrow> pystr" where
  "group0 text m = take (snd m - fst m) (drop (fst m) text)"

definition extract_doc_comment :: "pystr \<Rightarrow> event list \<times> pystr" where
  "extract_doc_comment text =
     (let matches = finditer_doc text 0 in
      if matches \<noteq> [] then ([], group0 text (last matches))
      else
        (let start = py_rfind text (lit ''/**'');
             endp = py_find text (lit ''*/'') start
         in ([ExtractWarning],
             if start \<noteq> - 1 \<and> endp \<noteq> - 1 then py_slice text start (endp + 2) else text)))"

definition occurs_at :: "pystr \<Rightarrow> pystr \<Rightarrow> nat \<Rightarrow> bool" where
  "occurs_at sub text i = prefix sub (drop i text)"

definition complete_block_at :: "pystr \<Rightarrow> nat \<Rightarrow> nat \<Rightarrow> bool" where
  "complete_block_at t s e \<longleftrightarrow>
     occurs_at (lit ''/**'') t s \<and> occurs_at (lit ''*/'') t e \<and> s + 3 \<le> e"

definition shortest_block :: "pystr \<Rightarrow> nat \<Rightarrow> nat \<Rightarrow> bool" where
  "shortest_block t a b \<longleftrightarrow>
     2 \<le> b \<and> complete_block_at t a (b - 2) \<and>
     (\<forall>k \<in> {a + 3 ..< b - 2}. \<not> occurs_at (lit ''*/'') t k)"

section \<open>The indentation-aware merge (\<open>llm.py\<close>, \<open>insert_doc_comment\<close>)\<close>

text \<open>
  \<open>str.isspace\<close>, \<open>str.strip\<close> and the regex class \<open>\s\<close> use one table of whitespace code
  points, \<open>str.splitlines\<close> one of line boundaries; both are written out as CPython has
  them.  \<open>\r\n\<close> is one line boundary, and a text that ends at a boundary has no empty last
  line.
\<close>

definition py_isspace :: "nat \<Rightarrow> bool" where
  "py_isspace c \<longleftrightarrow>
     (9 \<le> c \<and> c \<le> 13) \<or> (28 \<le> c \<and> c \<le> 32) \<or> c = 133 \<or> c = 160 \<or> c = 5760 \<or>
     (8192 \<le> c \<and> c \<le> 8202) \<or> c = 8232 \<or> c = 8233 \<or> c = 8239 \<or> c = 8287 \<or> c = 12288"

definition py_islinebreak :: "nat \<Rightarrow> bool" where
  "py_islinebreak c \<longleftrightarrow>
     (10 \<le> c \<and> c \<le> 13) \<or> (28 \<le> c \<and> c \<le> 30) \<or> c = 133 \<or> c = 8232 \<or> c = 8233"

definition py_lstrip :: "pystr \<Rightarrow> pystr" where
  "py_lstrip s = dropWhile py_isspace s"

definition py_rstrip :: "pystr \<Rightarrow> pystr" where
  "py_rstrip s = rev (dropWhile py_isspace (rev s))"

definition py_strip :: "pystr \<Rightarrow> pystr" where
  "py_strip s = py_rstrip (py_lstrip s)"

fun splitlines_from :: "pystr \<Rightarrow> pystr \<Rightarrow> pystr list" where
  "splitlines_from cur [] = (if cur = [] then [] else [cur])"
| "splitlines_from cur (c # cs) =
     (if c = 13 \<and> cs \<noteq> [] \<and> hd cs = 10 then cur # splitlines_from [] (tl cs)
      else if py_islinebreak c then cur # splitlines_from [] cs
      else splitlines_from (cur @ [c]) cs)"

definition py_splitlines :: "pystr \<Rightarrow> pystr list" where
  "py_splitlines s = splitlines_from [] s"

fun py_join :: "pystr \<Rightarrow> pystr list \<Rightarrow> pystr" where
  "py_join sep [] = []"
| "py_join sep [x] = x"
| "py_join sep (x # y # ys) = x @ sep @ py_join sep (y # ys)"

text \<open>
  The \<open>for ... else\<close> loop over the lines of the method: the first line with a character
  that is not whitespace gives the indent, \<open>re.match(r"\s*", line).group(0)\<close>, the longest
  whitespace prefix of that line; without such a line the indent is empty.
\<close>

fun first_indent :: "pystr list \<Rightarrow> pystr" where
  "first_indent [] = []"
| "first_indent (line # rest) =
     (if py_strip line \<noteq> [] then takeWhile py_isspace line else first_indent rest)"

definition insert_doc_comment :: "pystr \<Rightarrow> pystr \<Rightarrow> pystr" where
  "insert_doc_comment method_code doc_comment =
     (let lines = py_splitlines method_code;
          indent = first_indent lines;
          doc_comment_indented =
            py_join (lit ''\<newline>'')
              (map (\<lambda>line. if py_strip line \<noteq> [] then indent @ line else line)
                 (py_splitlines doc_comment))
      in doc_comment_indented @ lit ''\<newline>'' @ method_code)"

text \<open>A line is blank when it has whitespace only; \<open>line.strip()\<close> is then empty.\<close>

definition blank :: "pystr \<Rightarrow> bool" where
  "blank l = list_all py_isspace l"

section \<open>Reassembly of a streamed response (\<open>llm.py\<close>, \<open>DeepseekLLM.run\<close>)\<close>

text \<open>
  The loop over \<open>response.text.splitlines()\<close>: a line that starts with \<open>data: \<close> gives its
  rest as content; content that strips to \<open>[h_newline]\<close> appends a newline, content that
  strips to nothing, to \<open>[DONE]\<close> or to \<open>[newline]\<close> appends nothing, any other content is
  appended as it is.  Other lines are skipped.
\<close>

fun sse_content_lines :: "pystr list \<Rightarrow> pystr list" where
  "sse_content_lines [] = []"
| "sse_content_lines (line # lines) =
     (if prefix (lit ''data: '') line then
        (let content = drop (length (lit ''data: '')) line in
         if py_strip content = lit ''[h_newline]'' then
           lit ''\<newline>'' # sse_content_lines lines
         else if py_strip content \<noteq> [] \<and>
                 py_strip content \<notin> set [lit ''[DONE]'', lit ''[newline]''] then
           content # sse_content_lines lines
         else sse_content_lines lines)
      else sse_content_lines lines)"

text \<open>\<open>merged = "".join(content_lines) if content_lines else response.text\<close>\<close>

definition sse_merge :: "pystr \<Rightarrow> pystr" where
  "sse_merge response_text =
     (let content_lines = sse_content_lines (py_splitlines response_text)
      in if content_lines \<noteq> [] then concat content_lines else response_text)"






section \<open>The fenced code block (\<open>llm.py\<close>, \<open>DeepseekLLM._extract_code_block\<close>)\<close>

text \<open>
  The regex class \<open>\w\<close> is the alphanumeric table of the Unicode database plus the
  underscore.  That table is not part of the repository, so the functions that use \<open>\w\<close>
  take the class as the parameter \<open>W\<close>; \<open>ascii_word\<close> is its ASCII part.
\<close>

definition ascii_word :: "nat \<Rightarrow> bool" where
  "ascii_word c \<longleftrightarrow>
     (48 \<le> c \<and> c \<le> 57) \<or> (65 \<le> c \<and> c \<le> 90) \<or> (97 \<le> c \<and> c \<le> 122) \<or> c = 95"

text \<open>The first alternative that succeeds, in the order the matcher tries them.\<close>

fun first_some :: "('a \<Rightarrow> 'b option) \<Rightarrow> 'a list \<Rightarrow> 'b option" where
  "first_some f [] = None"
| "first_some f (x # xs) = (case f x of Some y \<Rightarrow> Some y | None \<Rightarrow> first_some f xs)"

text \<open>
  \<open>re.search(r"```(\w+)?\n?([\s\S]+?)```", text)\<close> at a start \<open>s\<close> where the three backticks
  stand.  The optional group is greedy: the matcher tries the longest run of word
  characters first, then shorter ones, then none (the group is then \<open>None\<close>).  Behind the
  group an optional newline is taken first and given back second.  Each alternative is
  the value of group 1 and the offset \<open>p\<close> where group 2 begins.
\<close>

definition opt_newline :: "pystr \<Rightarrow> pystr option \<Rightarrow> nat \<Rightarrow> (pystr option \<times> nat) list" where
  "opt_newline text g p =
     (if p < length text \<and> text ! p = 10 then [(g, p + 1), (g, p)] else [(g, p)])"

definition fence_candidates :: "(nat \<Rightarrow> bool) \<Rightarrow> pystr \<Rightarrow> nat \<Rightarrow> (pystr option \<times> nat) list" where
  "fence_candidates W text s =
     (let run = takeWhile W (drop (s + 3) text)
      in concat (map (\<lambda>k. opt_newline text (Some (take k run)) (s + 3 + k))
                   (rev [1 ..< Suc (length run)]))
         @ opt_newline text None (s + 3))"

text \<open>
  Group 2 is lazy and not empty: it ends at the first closing backticks that begin behind
  its first character.
\<close>

definition fence_try :: "pystr \<Rightarrow> pystr option \<times> nat \<Rightarrow> (pystr option \<times> pystr) option" where
  "fence_try text c =
     (case find_from (lit ''```'') text (snd c + 1) of
        None \<Rightarrow> None
      | Some e \<Rightarrow> Some (fst c, take (e - snd c) (drop (snd c) text)))"

definition fence_match_at :: "(nat \<Rightarrow> bool) \<Rightarrow> pystr \<Rightarrow> nat \<Rightarrow> (pystr option \<times> pystr) option" where
  "fence_match_at W text s = first_some (fence_try text) (fence_candidates W text s)"

text \<open>The search tries the starts from left to right; the result is groups 1 and 2.\<close>

function fence_search :: "(nat \<Rightarrow> bool) \<Rightarrow> pystr \<Rightarrow> nat \<Rightarrow> (pystr option \<times> pystr) option" where
  "fence_search W text pos =
     (case find_from (lit ''```'') text pos of
        None \<Rightarrow> None
      | Some s \<Rightarrow>
          (case fence_match_at W text s of
             Some m \<Rightarrow> Some m
           | None \<Rightarrow> fence_search W text (s + 1)))"
  by pat_completeness auto
termination
proof (relation "measure (\<lambda>(W, text, pos). Suc (length text) - pos)")
  show "wf (measure (\<lambda>(W, text, pos). Suc (length text) - pos))" by simp
next
  fix W :: "nat \<Rightarrow> bool" and t :: pystr and pos s :: nat
  assume "find_from (lit ''```'') t pos = Some s"
  then have "pos \<le> s" "s + 3 \<le> length t" by (auto dest!: find_from_bound)
  then show "((W, t, s + 1), (W, t, pos)) \<in> measure (\<lambda>(W, text, pos). Suc (length text) - pos)"
    by simp
qed

declare fence_search.simps [simp del]

text \<open>
  \<open>re.match(r"(\w+)\s*(/[*]{2}[\s\S]+)", text)\<close>, anchored at the start: a run of word
  characters (longest first), a run of whitespace (longest first), then \<open>/**\<close> and at
  least one more character; group 2 runs to the end of the text.
\<close>

definition lang_candidates :: "(nat \<Rightarrow> bool) \<Rightarrow> pystr \<Rightarrow> (nat \<times> nat) list" where
  "lang_candidates W text =
     concat (map (\<lambda>k. map (\<lambda>j. (k, k + j))
                        (rev [0 ..< Suc (length (takeWhile py_isspace (drop k text)))]))
               (rev [1 ..< Suc (length (takeWhile W text))]))"

definition lang_try :: "pystr \<Rightarrow> nat \<times> nat \<Rightarrow> (pystr \<times> pystr) option" where
  "lang_try text c =
     (if prefix (lit ''/**'') (drop (snd c) text) \<and> snd c + 4 \<le> length text
      then Some (take (fst c) text, drop (snd c) text) else None)"

definition lang_match :: "(nat \<Rightarrow> bool) \<Rightarrow> pystr \<Rightarrow> (pystr \<times> pystr) option" where
  "lang_match W text = first_some (lang_try text) (lang_candidates W text)"

text \<open>
  \<open>str.replace(old, new)\<close>: the occurrences of \<open>old\<close> are found from left to right and do
  not overlap; an empty \<open>old\<close> stands before every character and at the end.
\<close>

function replace_all :: "pystr \<Rightarrow> pystr \<Rightarrow> pystr \<Rightarrow> pystr" where
  "replace_all old new [] = []"
| "replace_all old new (c # cs) =
     (if old \<noteq> [] \<and> prefix old (c # cs)
      then new @ replace_all old new (drop (length old) (c # cs))
      else c # replace_all old new cs)"
  by pat_completeness auto
termination
  by (relation "measure (\<lambda>(old, new, s). length s)") auto

definition py_replace :: "pystr \<Rightarrow> pystr \<Rightarrow> pystr \<Rightarrow> pystr" where
  "py_replace s old new =
     (if old = [] then new @ concat (map (\<lambda>c. c # new) s) else replace_all old new s)"

text \<open>
  \<open>re.sub(r"^data:\s*", "", code, flags=re.MULTILINE)\<close>: at the start of the text and
  behind every newline, \<open>data:\<close> and the whitespace that follows it (newlines too) are
  removed.  \<open>bol\<close> says whether the position is the start of a line; behind a removed
  match it is when the last removed character is a newline.
\<close>

function sub_data :: "bool \<Rightarrow> pystr \<Rightarrow> pystr" where
  "sub_data bol [] = []"
| "sub_data bol (c # cs) =
     (if bol \<and> prefix (lit ''data:'') (c # cs) then
        (let rest = drop 5 (c # cs); ws = takeWhile py_isspace rest
         in sub_data (ws \<noteq> [] \<and> last ws = 10) (dropWhile py_isspace rest))
      else c # sub_data (c = 10) cs)"
  by pat_completeness auto
termination
proof (relation "measure (\<lambda>(bol, s). length s)")
  show "wf (measure (\<lambda>(bol, s). length s))" by simp
next
  fix bol :: bool and c :: nat and cs rest ws :: pystr
  assume "rest = drop 5 (c # cs)"
  then have "length (dropWhile py_isspace rest) \<le> length cs"
    using length_dropWhile_le[of py_isspace rest] by simp
  then show "((ws \<noteq> [] \<and> last ws = 10, dropWhile py_isspace rest), (bol, c # cs))
      \<in> measure (\<lambda>(bol, s). length s)" by simp
next
  fix bol :: bool and c :: nat and cs :: pystr
  show "((c = 10, cs), (bol, c # cs)) \<in> measure (\<lambda>(bol, s). length s)" by simp
qed

text \<open>The three clean-up steps on the chosen code, in the order of the source.\<close>

definition clean_code :: "pystr \<Rightarrow> pystr" where
  "clean_code code =
     py_lstrip (sub_data True (py_replace code (lit ''[h_newline]'') (lit ''\<newline>'')))"

definition fenced :: "pystr \<Rightarrow> pystr \<Rightarrow> pystr" where
  "fenced lang code = lit ''```'' @ lang @ lit ''\<newline>'' @ code @ lit ''\<newline>```''"

definition extract_code_block :: "(nat \<Rightarrow> bool) \<Rightarrow> pystr \<Rightarrow> pystr" where
  "extract_code_block W text =
     (case fence_search W text 0 of
        Some (g, code) \<Rightarrow>
          fenced (case g of Some l \<Rightarrow> l | None \<Rightarrow> lit ''java'') (clean_code code)
      | None \<Rightarrow>
          (case lang_match W text of
             Some (lang, code) \<Rightarrow> fenced lang (clean_code code)
           | None \<Rightarrow> fenced (lit ''java'') (clean_code text)))"

text \<open>
  \<open>DeepseekLLM.run\<close> from the request on.  The request either raises in
  \<open>requests.post\<close>, or answers with a status that \<open>raise_for_status\<close> turns into an
  exception (the raw response is printed before), or answers well.  Every exception is
  caught: the function prints the failure and returns the empty string.
\<close>

datatype http_outcome = PostRaised | StatusRaised pystr | Responded pystr

definition DeepseekLLM_run :: "(nat \<Rightarrow> bool) \<Rightarrow> http_outcome \<Rightarrow> event list \<times> pystr" where
  "DeepseekLLM_run W outcome =
     (case outcome of
        PostRaised \<Rightarrow> ([DeepseekSending, DeepseekFailed], [])
      | StatusRaised raw \<Rightarrow> ([DeepseekSending, DeepseekRawResponse raw, DeepseekFailed], [])
      | Responded raw \<Rightarrow>
          ([DeepseekSending, DeepseekRawResponse raw],
           (let merged = sse_merge raw;
                code_block = extract_code_block W merged
            in if code_block \<noteq> [] then code_block else merged)))"

text \<open>
  \<open>LLM.generate_doc_comment\<close>: the Deepseek wrapper is called through \<open>run\<close> above; the
  other back ends go through \<open>chain.run\<close>, whose exceptions are not caught.
\<close>

datatype backend = Deepseek http_outcome | Chain "pystr option"

datatype run_error = LLMError

definition generate_doc_comment ::
    "(nat \<Rightarrow> bool) \<Rightarrow> backend \<Rightarrow> event list \<times> (run_error + pystr)" where
  "generate_doc_comment W b =
     (case b of
        Deepseek outcome \<Rightarrow>
          (fst (DeepseekLLM_run W outcome), Inr (snd (DeepseekLLM_run W outcome)))
      | Chain None \<Rightarrow> ([], Inl LLMError)
      | Chain (Some documented_code) \<Rightarrow> ([], Inr documented_code))"

section \<open>The driver loop (\<open>app.py\<close>, \<open>run\<close>)\<close>

text \<open>
  A node of the method parser, the command line flags the loop reads, and what the
  outside world does for one node: the line typed at the prompt of the guided mode, the
  token count of \<open>utils.count_tokens\<close>, and the behaviour of the back end when called.
\<close>

record node =
  name :: pystr
  doc_comment :: "pystr option"
  method_source_code :: pystr

record args =
  guided :: bool
  gpt4 :: bool
  gpt3_5_16k :: bool

record env =
  answer :: pystr
  tokens :: nat
  reply :: backend

text \<open>
  The dictionary \<open>generated_doc_comments\<close> keeps its keys in insertion order; assigning to
  a key it has replaces the value in place.  The state of the loop is the dictionary and
  what was printed.
\<close>

fun dict_set :: "pystr \<Rightarrow> pystr \<Rightarrow> (pystr \<times> pystr) list \<Rightarrow> (pystr \<times> pystr) list" where
  "dict_set k v [] = [(k, v)]"
| "dict_set k v ((k', v') # d) = (if k' = k then (k, v) # d else (k', v') # dict_set k v d)"

record run_state =
  generated_doc_comments :: "(pystr \<times> pystr) list"
  printed :: "event list"

text \<open>
  \<open>if node.doc_comment\<close> holds for a comment that is there and not empty.
  \<open>input().lower() == "y"\<close> holds for the answers \<open>y\<close> and \<open>Y\<close>, the only texts whose
  lower case is \<open>y\<close>.
\<close>

definition truthy :: "pystr option \<Rightarrow> bool" where
  "truthy v = (case v of None \<Rightarrow> False | Some s \<Rightarrow> s \<noteq> [])"

definition says_yes :: "pystr \<Rightarrow> bool" where
  "says_yes a \<longleftrightarrow> a = lit ''y'' \<or> a = lit ''Y''"

text \<open>The three \<open>continue\<close> statements: the node never reaches the back end.\<close>

definition skipped :: "args \<Rightarrow> node \<Rightarrow> env \<Rightarrow> bool" where
  "skipped a n e \<longleftrightarrow>
     truthy (doc_comment n) \<or> (guided a \<and> \<not> says_yes (answer e)) \<or>
     (2048 < tokens e \<and> \<not> (gpt4 a \<or> gpt3_5_16k a))"

text \<open>
  One iteration of \<open>for node in treesitterNodes\<close>.  An exception of the back end is not
  caught in \<open>run\<close>: it ends the loop and the program.
\<close>

definition process_node ::
    "(nat \<Rightarrow> bool) \<Rightarrow> args \<Rightarrow> run_state \<Rightarrow> node \<times> env \<Rightarrow> run_error + run_state" where
  "process_node W a st x =
     (let n = fst x; e = snd x;
          asked = (if guided a then [AskGenerate (name n)] else [])
      in
      if truthy (doc_comment n) then
        Inr (st\<lparr>printed := printed st @ [AlreadyDocumented (name n)]\<rparr>)
      else if guided a \<and> \<not> says_yes (answer e) then
        Inr (st\<lparr>printed := printed st @ asked\<rparr>)
      else if 2048 < tokens e \<and> \<not> (gpt4 a \<or> gpt3_5_16k a) then
        Inr (st\<lparr>printed := printed st @ asked @ [TooManyTokens (name n)]\<rparr>)
      else
        (case generate_doc_comment W (reply e) of
           (evs, Inl err) \<Rightarrow> Inl err
         | (evs, Inr documented_method_source_code) \<Rightarrow>
             (let extracted = extract_doc_comment documented_method_source_code;
                  comment = snd extracted;
                  warning = (if \<not> prefix (lit ''/**'') (py_strip comment)
                             then [NotStandardWarning (name n)] else []);
                  merged_code = insert_doc_comment (method_source_code n) comment
              in Inr \<lparr>generated_doc_comments =
                         dict_set (method_source_code n) merged_code (generated_doc_comments st),
                       printed = printed st @ asked @ evs @
                         [RawOutput documented_method_source_code] @ fst extracted @ warning @
                         [Generated (name n)]\<rparr>)))"

fun run_loop ::
    "(nat \<Rightarrow> bool) \<Rightarrow> args \<Rightarrow> run_state \<Rightarrow> (node \<times> env) list \<Rightarrow> run_error + run_state" where
  "run_loop W a st [] = Inr st"
| "run_loop W a st (x # xs) =
     (case process_node W a st x of
        Inl err \<Rightarrow> Inl err
      | Inr st' \<Rightarrow> run_loop W a st' xs)"

text \<open>
  Modelled from the spec: \<open>utils.write_code_snippet_to_file\<close> is called by \<open>run\<close> but the
  module \<open>utils\<close> is not among the sources.  The specification of the source patcher has it
  replace every literal occurrence of the original text in the current file content with
  the merged text, by exact matching; the file is modelled by its content.
\<close>

definition write_code_snippet_to_file :: "pystr \<Rightarrow> pystr \<Rightarrow> pystr \<Rightarrow> pystr" where
  "write_code_snippet_to_file file_content original_code merged_code =
     py_replace file_content original_code merged_code"

text \<open>\<open>for original_code, merged_code in generated_doc_comments.items()\<close>\<close>

fun apply_patches :: "(pystr \<times> pystr) list \<Rightarrow> pystr \<Rightarrow> pystr" where
  "apply_patches [] file_content = file_content"
| "apply_patches ((original_code, merged_code) # patches) file_content =
     apply_patches patches (write_code_snippet_to_file file_content original_code merged_code)"

text \<open>The loop from an empty dictionary, then the patches; the result is the file and the output.\<close>

definition run ::
    "(nat \<Rightarrow> bool) \<Rightarrow> args \<Rightarrow> (node \<times> env) list \<Rightarrow> pystr \<Rightarrow> run_error + (pystr \<times> event list)" where
  "run W a nodes file_content =
     (case run_loop W a \<lparr>generated_doc_comments = [], printed = []\<rparr> nodes of
        Inl err \<Rightarrow> Inl err
      | Inr st \<Rightarrow> Inr (apply_patches (generated_doc_comments st) file_content, printed st))"


section \<open>Properties of the searches and of the scan\<close>

lemma find_first_Some:
  "find_first sub xs = Some i \<Longrightarrow> occurs_at sub xs i \<and> (\<forall>j<i. \<not> occurs_at sub xs j)"
proof (induction xs arbitrary: i)
  case Nil
  then show ?case by (simp add: occurs_at_def split: if_splits)
next
  case (Cons x xs)
  show ?case
  proof (cases "prefix sub (x # xs)")
    case True
    with Cons.prems show ?thesis by (simp add: occurs_at_def)
  next
    case False
    with Cons.prems obtain j where j: "find_first sub xs = Some j" "i = Suc j" by auto
    from Cons.IH[OF j(1)] have ih: "occurs_at sub xs j" "\<forall>k<j. \<not> occurs_at sub xs k" by auto
    have "\<not> occurs_at sub (x # xs) k" if "k < i" for k
    proof (cases k)
      case 0
      with False show ?thesis by (simp add: occurs_at_def)
    next
      case (Suc k')
      with that j(2) ih(2) show ?thesis by (simp add: occurs_at_def)
    qed
    with ih(1) j(2) show ?thesis by (simp add: occurs_at_def)
  qed
qed

lemma find_first_None:
  "find_first sub xs = None \<Longrightarrow> \<not> occurs_at sub xs j"
proof (induction xs arbitrary: j)
  case Nil
  then show ?case by (simp add: occurs_at_def split: if_splits)
next
  case (Cons x xs)
  then have np: "\<not> prefix sub (x # xs)" and n: "find_first sub xs = None"
    by (auto split: if_splits)
  show ?case
  proof (cases j)
    case 0
    with np show ?thesis by (simp add: occurs_at_def)
  next
    case (Suc k)
    with Cons.IH[OF n, of k] show ?thesis by (simp add: occurs_at_def)
  qed
qed

lemma find_first_complete:
  "occurs_at sub xs j \<Longrightarrow> \<exists>i. find_first sub xs = Some i"
  using find_first_None by (cases "find_first sub xs") auto

lemma find_from_Some:
  assumes "find_from sub t p = Some i"
  shows "p \<le> i" and "occurs_at sub t i" and "\<And>j. p \<le> j \<Longrightarrow> j < i \<Longrightarrow> \<not> occurs_at sub t j"
proof -
  from assms obtain k where k: "find_first sub (drop p t) = Some k" "i = p + k" "p \<le> length t"
    by (auto simp: find_from_def split: if_splits)
  from find_first_Some[OF k(1)] have a: "occurs_at sub (drop p t) k"
    and b: "\<forall>j<k. \<not> occurs_at sub (drop p t) j" by auto
  show "p \<le> i" using k by simp
  show "occurs_at sub t i" using a k by (simp add: occurs_at_def add.commute)
  fix j assume "p \<le> j" "j < i"
  then have "j - p < k" using k by simp
  with b have "\<not> occurs_at sub (drop p t) (j - p)" by simp
  then show "\<not> occurs_at sub t j" using \<open>p \<le> j\<close> by (simp add: occurs_at_def add.commute)
qed

lemma find_from_None:
  assumes "find_from sub t p = None" "sub \<noteq> []" "p \<le> j"
  shows "\<not> occurs_at sub t j"
proof (cases "p \<le> length t")
  case True
  with assms have "find_first sub (drop p t) = None" by (simp add: find_from_def)
  from find_first_None[OF this, of "j - p"] assms(3) show ?thesis
    by (simp add: occurs_at_def add.commute)
next
  case False
  with assms show ?thesis by (simp add: occurs_at_def)
qed

lemma find_from_complete:
  assumes "occurs_at sub t j" "p \<le> j" "sub \<noteq> []"
  shows "\<exists>i. find_from sub t p = Some i \<and> i \<le> j"
proof (cases "find_from sub t p")
  case None
  with assms find_from_None show ?thesis by blast
next
  case (Some i)
  have "i \<le> j"
  proof (rule ccontr)
    assume "\<not> i \<le> j"
    then have "j < i" by simp
    with find_from_Some(3)[OF Some assms(2)] assms(1) show False by simp
  qed
  with Some show ?thesis by simp
qed

lemma find_last_None:
  "find_last sub xs = None \<Longrightarrow> \<not> occurs_at sub xs j"
proof (induction xs arbitrary: j)
  case Nil
  then show ?case by (simp add: occurs_at_def split: if_splits)
next
  case (Cons x xs)
  then have n: "find_last sub xs = None" and np: "\<not> prefix sub (x # xs)"
    by (auto split: option.splits if_splits)
  show ?case
  proof (cases j)
    case 0
    with np show ?thesis by (simp add: occurs_at_def)
  next
    case (Suc k)
    with Cons.IH[OF n, of k] show ?thesis by (simp add: occurs_at_def)
  qed
qed

lemma find_last_Some:
  "find_last sub xs = Some i \<Longrightarrow>
     occurs_at sub xs i \<and> i \<le> length xs \<and>
     (\<forall>j>i. j \<le> length xs \<longrightarrow> \<not> occurs_at sub xs j)"
proof (induction xs arbitrary: i)
  case Nil
  then show ?case by (simp add: occurs_at_def split: if_splits)
next
  case (Cons x xs)
  show ?case
  proof (cases "find_last sub xs")
    case None
    with Cons.prems have p: "prefix sub (x # xs)" "i = 0" by (auto split: if_splits)
    have "\<not> occurs_at sub (x # xs) j" if "j > i" for j
    proof (cases j)
      case 0 with that p show ?thesis by simp
    next
      case (Suc k)
      with find_last_None[OF None, of k] show ?thesis by (simp add: occurs_at_def)
    qed
    with p show ?thesis by (simp add: occurs_at_def)
  next
    case (Some k)
    with Cons.prems have i: "i = Suc k" by simp
    from Cons.IH[OF Some] have ih: "occurs_at sub xs k" "k \<le> length xs"
      "\<forall>j>k. j \<le> length xs \<longrightarrow> \<not> occurs_at sub xs j" by auto
    have "\<not> occurs_at sub (x # xs) j" if "j > i" "j \<le> length (x # xs)" for j
      using that i ih(3) by (cases j) (auto simp: occurs_at_def)
    with i ih show ?thesis by (simp add: occurs_at_def)
  qed
qed

lemma lit_start [simp]: "lit ''/**'' = [47, 42, 42]"
  by (simp add: lit_def)

lemma lit_end [simp]: "lit ''*/'' = [42, 47]"
  by (simp add: lit_def)

lemma occurs_at_bound: "occurs_at sub t i \<Longrightarrow> sub \<noteq> [] \<Longrightarrow> i + length sub \<le> length t"
proof -
  assume "occurs_at sub t i" "sub \<noteq> []"
  then have "length sub \<le> length t - i" "0 < length sub"
    by (auto simp: occurs_at_def dest!: prefix_length_le)
  then show ?thesis by arith
qed

lemma finditer_Nil_iff:
  "finditer_doc t p = [] \<longleftrightarrow> (\<forall>s e. p \<le> s \<longrightarrow> \<not> complete_block_at t s e)"
proof
  assume nil: "finditer_doc t p = []"
  show "\<forall>s e. p \<le> s \<longrightarrow> \<not> complete_block_at t s e"
  proof (intro allI impI notI)
    fix s e assume ps: "p \<le> s" and cb: "complete_block_at t s e"
    then have os: "occurs_at (lit ''/**'') t s" and oe: "occurs_at (lit ''*/'') t e" and se: "s + 3 \<le> e"
      by (auto simp: complete_block_at_def)
    from find_from_complete[OF os ps] obtain s0 where s0: "find_from (lit ''/**'') t p = Some s0" "s0 \<le> s"
      by auto
    from find_from_complete[OF oe, of "s0 + 3"] s0(2) se
    obtain e0 where "find_from (lit ''*/'') t (s0 + 3) = Some e0" by auto
    with s0(1) nil show False by (subst (asm) finditer_doc.simps) simp
  qed
next
  assume none: "\<forall>s e. p \<le> s \<longrightarrow> \<not> complete_block_at t s e"
  show "finditer_doc t p = []"
  proof (cases "find_from (lit ''/**'') t p")
    case None
    then show ?thesis by (subst finditer_doc.simps) simp
  next
    case (Some s)
    show ?thesis
    proof (cases "find_from (lit ''*/'') t (s + 3)")
      case None
      with Some show ?thesis by (subst finditer_doc.simps) simp
    next
      case (Some e)
      from find_from_Some[OF \<open>find_from (lit ''/**'') t p = Some s\<close>] find_from_Some[OF Some]
      have "p \<le> s" "complete_block_at t s e" by (auto simp: complete_block_at_def)
      with none show ?thesis by blast
    qed
  qed
qed

lemma finditer_None1:
  "find_from (lit ''/**'') t p = None \<Longrightarrow> finditer_doc t p = []"
  by (subst finditer_doc.simps) simp

lemma finditer_None2:
  "find_from (lit ''/**'') t p = Some s \<Longrightarrow> find_from (lit ''*/'') t (s + 3) = None \<Longrightarrow>
   finditer_doc t p = []"
  by (subst finditer_doc.simps) simp

lemma finditer_Some:
  "find_from (lit ''/**'') t p = Some s \<Longrightarrow> find_from (lit ''*/'') t (s + 3) = Some e \<Longrightarrow>
   finditer_doc t p = (s, e + 2) # finditer_doc t (e + 2)"
  by (subst finditer_doc.simps) simp

lemma finditer_cases:
  obtains (nil) "finditer_doc t p = []"
  | (cons) s e where "find_from (lit ''/**'') t p = Some s"
      "find_from (lit ''*/'') t (s + 3) = Some e"
      "finditer_doc t p = (s, e + 2) # finditer_doc t (e + 2)"
proof (cases "find_from (lit ''/**'') t p")
  case None
  then show ?thesis using nil finditer_None1 by blast
next
  case (Some s)
  show ?thesis
  proof (cases "find_from (lit ''*/'') t (s + 3)")
    case None
    with Some show ?thesis using nil finditer_None2 by blast
  next
    case (Some e)
    with \<open>find_from (lit ''/**'') t p = Some s\<close> show ?thesis
      using cons finditer_Some by blast
  qed
qed

lemma finditer_mem:
  "(a, b) \<in> set (finditer_doc t p) \<Longrightarrow>
     p \<le> a \<and> occurs_at (lit ''/**'') t a \<and> a + 5 \<le> b \<and> b \<le> length t \<and>
     occurs_at (lit ''*/'') t (b - 2) \<and>
     (\<forall>k. a + 3 \<le> k \<and> k < b - 2 \<longrightarrow> \<not> occurs_at (lit ''*/'') t k)"
proof (induction t p rule: finditer_doc.induct)
  case (1 t p)
  show ?case
  proof (cases t p rule: finditer_cases)
    case nil
    with "1.prems" show ?thesis by simp
  next
    case (cons s e)
    note fs = find_from_Some[OF cons(1)] and fe = find_from_Some[OF cons(2)]
    from "1.prems" cons(3)
    have mem: "(a, b) = (s, e + 2) \<or> (a, b) \<in> set (finditer_doc t (e + 2))" by simp
    then show ?thesis
    proof
      assume "(a, b) = (s, e + 2)"
      then have ab: "a = s" "b = e + 2" by auto
      from occurs_at_bound[OF fe(2)] have "e + 2 \<le> length t" by simp
      with ab fs fe show ?thesis by auto
    next
      assume "(a, b) \<in> set (finditer_doc t (e + 2))"
      from "1.IH"[OF cons(1) cons(2) this] fs(1) fe(1) show ?thesis by auto
    qed
  qed
qed

lemma finditer_last_Nil:
  "finditer_doc t p \<noteq> [] \<Longrightarrow> finditer_doc t (snd (last (finditer_doc t p))) = []"
proof (induction t p rule: finditer_doc.induct)
  case (1 t p)
  show ?case
  proof (cases t p rule: finditer_cases)
    case nil
    with "1.prems" show ?thesis by simp
  next
    case (cons s e)
    show ?thesis
    proof (cases "finditer_doc t (e + 2) = []")
      case True
      with cons(3) show ?thesis by simp
    next
      case False
      with "1.IH"[OF cons(1) cons(2)] cons(3) show ?thesis by simp
    qed
  qed
qed

lemma sublist_iff_occurs: "sublist sub t \<longleftrightarrow> (\<exists>i. occurs_at sub t i)"
proof
  assume "sublist sub t"
  then obtain ps ss where "t = ps @ sub @ ss" by (auto simp: sublist_def)
  then have "occurs_at sub t (length ps)" by (simp add: occurs_at_def)
  then show "\<exists>i. occurs_at sub t i" ..
next
  assume "\<exists>i. occurs_at sub t i"
  then obtain i ss where "drop i t = sub @ ss" by (auto simp: occurs_at_def prefix_def)
  then have "t = take i t @ sub @ ss" by (metis append_take_drop_id)
  then show "sublist sub t" by (auto simp: sublist_def)
qed

lemma sublist_take_drop: "sublist (take n (drop m t)) t"
proof -
  have "t = take m t @ drop m t" by simp
  also have "drop m t = take n (drop m t) @ drop n (drop m t)"
    by (rule append_take_drop_id[symmetric])
  finally have "t = take m t @ take n (drop m t) @ drop n (drop m t)" .
  then show ?thesis unfolding sublist_def by blast
qed

lemma sublist_py_slice: "sublist (py_slice t a b) t"
  by (simp add: py_slice_def Let_def sublist_take_drop)

lemma py_rfind_last:
  assumes "occurs_at sub t a" "\<forall>j>a. \<not> occurs_at sub t j"
  shows "py_rfind t sub = int a"
proof (cases "find_last sub t")
  case None
  from find_last_None[OF None, of a] assms show ?thesis by simp
next
  case (Some i)
  from find_last_Some[OF Some] have i: "occurs_at sub t i" "i \<le> length t"
    "\<forall>j>i. j \<le> length t \<longrightarrow> \<not> occurs_at sub t j" by auto
  have "a \<le> length t"
  proof (rule ccontr)
    assume "\<not> a \<le> length t"
    with assms(1) have "sub = []" by (simp add: occurs_at_def)
    with \<open>\<not> a \<le> length t\<close> have "occurs_at sub t (Suc a)" by (simp add: occurs_at_def)
    with assms(2) show False by blast
  qed
  have "i = a"
  proof (rule ccontr)
    assume "i \<noteq> a"
    then consider "i < a" | "a < i" by linarith
    then show False
    proof cases
      case 1 with i(3) \<open>a \<le> length t\<close> assms(1) show False by blast
    next
      case 2 with assms(2) i(1) show False by blast
    qed
  qed
  with Some show ?thesis by (simp add: py_rfind_def)
qed

section \<open>Properties of the extractor\<close>

lemma finditer_nonempty:
  assumes "complete_block_at t s e"
  shows "finditer_doc t 0 \<noteq> []"
  using assms finditer_Nil_iff[of t 0] by auto

text \<open>
  Claim C1.  When the text contains a complete block, that is a start marker \<open>/**\<close> at some
  offset and an end marker \<open>*/\<close> that begins at least three characters later,
  \<open>extract_doc_comment\<close> prints nothing and returns the last match of the scan: the span
  \<open>[a, b)\<close> that starts with a start marker, ends with the nearest end marker after it, and
  has no complete block behind it.
\<close>

theorem extract_last_block:
  assumes "complete_block_at t s e"
  shows "\<exists>a b. (a, b) \<in> set (finditer_doc t 0) \<and> last (finditer_doc t 0) = (a, b) \<and>
           extract_doc_comment t = ([], take (b - a) (drop a t)) \<and>
           shortest_block t a b \<and> b \<le> length t \<and>
           (\<forall>s' e'. b \<le> s' \<longrightarrow> \<not> complete_block_at t s' e')"
proof -
  from finditer_nonempty[OF assms] have ne: "finditer_doc t 0 \<noteq> []" .
  obtain a b where ab: "last (finditer_doc t 0) = (a, b)" by (cases "last (finditer_doc t 0)")
  from ne ab have mem: "(a, b) \<in> set (finditer_doc t 0)" using last_in_set by metis
  from finditer_mem[OF mem] have props: "occurs_at (lit ''/**'') t a" "a + 5 \<le> b" "b \<le> length t"
    "occurs_at (lit ''*/'') t (b - 2)"
    "\<forall>k. a + 3 \<le> k \<and> k < b - 2 \<longrightarrow> \<not> occurs_at (lit ''*/'') t k" by auto
  then have sb: "shortest_block t a b"
    by (auto simp: shortest_block_def complete_block_at_def)
  from finditer_last_Nil[OF ne] ab have "finditer_doc t b = []" by simp
  then have after: "\<forall>s' e'. b \<le> s' \<longrightarrow> \<not> complete_block_at t s' e'"
    by (simp add: finditer_Nil_iff)
  from ne ab have "extract_doc_comment t = ([], take (b - a) (drop a t))"
    by (simp add: extract_doc_comment_def group0_def Let_def)
  with mem ab sb props(3) after show ?thesis by blast
qed

lemma py_find_from:
  "find_from sub t a = Some e0 \<Longrightarrow> py_find t sub (int a) = int e0"
  by (simp add: py_find_def)

lemma py_slice_span:
  "a \<le> e \<Longrightarrow> e + 2 \<le> length t \<Longrightarrow>
   py_slice t (int a) (int e + 2) = take (e + 2 - a) (drop a t)"
  by (simp add: py_slice_def slice_index_def Let_def nat_add_distrib)

lemma extract_no_match:
  assumes "finditer_doc t 0 = []"
  shows "extract_doc_comment t =
     ([ExtractWarning],
      if py_rfind t (lit ''/**'') \<noteq> - 1 \<and> py_find t (lit ''*/'') (py_rfind t (lit ''/**'')) \<noteq> - 1
      then py_slice t (py_rfind t (lit ''/**'')) (py_find t (lit ''*/'') (py_rfind t (lit ''/**'')) + 2)
      else t)"
  using assms by (simp add: extract_doc_comment_def Let_def)

text \<open>
  Claim C7.  When the text has no complete block, \<open>a\<close> is the last offset of a start marker
  and an end marker begins at \<open>a\<close> or later, \<open>extract_doc_comment\<close> prints its warning and
  returns the text from \<open>a\<close> through the first end marker found from \<open>a\<close> on, both markers
  included.
\<close>

theorem extract_fallback_span:
  assumes nb: "\<forall>s e. \<not> complete_block_at t s e"
    and st: "occurs_at (lit ''/**'') t a" "\<forall>j>a. \<not> occurs_at (lit ''/**'') t j"
    and en: "occurs_at (lit ''*/'') t e" "a \<le> e"
  shows "\<exists>e0. a \<le> e0 \<and> e0 \<le> e \<and> occurs_at (lit ''*/'') t e0 \<and>
           (\<forall>k \<in> {a ..< e0}. \<not> occurs_at (lit ''*/'') t k) \<and>
           extract_doc_comment t = ([ExtractWarning], take (e0 + 2 - a) (drop a t))"
proof -
  from nb have nil: "finditer_doc t 0 = []" by (simp add: finditer_Nil_iff)
  from py_rfind_last[OF st] have rf: "py_rfind t (lit ''/**'') = int a" .
  from find_from_complete[OF en] obtain e0
    where e0: "find_from (lit ''*/'') t a = Some e0" "e0 \<le> e" by auto
  note fe = find_from_Some[OF e0(1)]
  from occurs_at_bound[OF fe(2)] have bound: "e0 + 2 \<le> length t" by simp
  have pf: "py_find t (lit ''*/'') (int a) = int e0" by (rule py_find_from[OF e0(1)])
  have sl: "py_slice t (int a) (int e0 + 2) = take (e0 + 2 - a) (drop a t)"
    by (rule py_slice_span[OF fe(1) bound])
  have "extract_doc_comment t = ([ExtractWarning], take (e0 + 2 - a) (drop a t))"
    by (simp add: extract_no_match[OF nil] rf pf sl del: lit_start lit_end)
  moreover have "\<forall>k \<in> {a ..< e0}. \<not> occurs_at (lit ''*/'') t k" using fe(3) by auto
  ultimately show ?thesis using fe(1) fe(2) e0(2) by blast
qed

lemma occurs_at_nth:
  assumes "occurs_at sub t i" "j < length sub"
  shows "t ! (i + j) = sub ! j"
proof -
  from assms(1) obtain ss where d: "drop i t = sub @ ss" by (auto simp: occurs_at_def prefix_def)
  have "i + j < length t" using assms d
    by (metis add_diff_cancel_left' length_append length_drop less_diff_conv trans_less_add1 add.commute)
  then have "t ! (i + j) = drop i t ! j" by simp
  also have "\<dots> = sub ! j" using d assms(2) by (simp add: nth_append)
  finally show ?thesis .
qed

text \<open>The only span the fallback can return is the empty comment.\<close>

lemma extract_fallback_span_shape:
  assumes nb: "\<forall>s e. \<not> complete_block_at t s e"
    and st: "occurs_at (lit ''/**'') t a"
    and en: "occurs_at (lit ''*/'') t e" "a \<le> e"
  shows "e = a + 2" and "take (e + 2 - a) (drop a t) = lit ''/**/''"
proof -
  from nb st en(1) have "e < a + 3" by (auto simp: complete_block_at_def not_le)
  have t0: "t ! a = 47" using occurs_at_nth[OF st, of 0] by simp
  have t1: "t ! (a + 1) = 42" using occurs_at_nth[OF st, of 1] by simp
  have t2: "t ! (a + 2) = 42" using occurs_at_nth[OF st, of 2] by simp
  have e0: "t ! e = 42" using occurs_at_nth[OF en(1), of 0] by simp
  have e1: "t ! (e + 1) = 47" using occurs_at_nth[OF en(1), of 1] by simp
  from \<open>e < a + 3\<close> en(2) consider "e = a" | "e = a + 1" | "e = a + 2" by linarith
  then show e: "e = a + 2"
  proof cases
    case 1 with t0 e0 show ?thesis by simp
  next
    case 2 with t2 e1 show ?thesis by simp
  qed
  from st obtain ss where d: "drop a t = [47, 42, 42] @ ss"
    by (auto simp: occurs_at_def prefix_def)
  have "drop (a + 2) t = drop 2 (drop a t)" by (simp add: add.commute)
  with d have "drop (a + 2) t = 42 # ss" by simp
  with en(1) e obtain ss' where "ss = 47 # ss'"
    by (auto simp: occurs_at_def prefix_def)
  with d have "take 4 (drop a t) = [47, 42, 42, 47]" by simp
  with e show "take (e + 2 - a) (drop a t) = lit ''/**/''"
    by (simp add: lit_def)
qed

text \<open>
  Claim C10.  \<open>extract_doc_comment\<close> is a total function (the scan terminates and no branch
  raises), and what it returns is a contiguous part of its input: the last complete
  block, a span from a start marker through an end marker, or the whole input.
\<close>

theorem extract_is_substring:
  "sublist (snd (extract_doc_comment t)) t \<and>
   ((\<exists>a b. (a, b) \<in> set (finditer_doc t 0) \<and> last (finditer_doc t 0) = (a, b) \<and>
            shortest_block t a b \<and> snd (extract_doc_comment t) = take (b - a) (drop a t)) \<or>
    (\<exists>a e. occurs_at (lit ''/**'') t a \<and> occurs_at (lit ''*/'') t e \<and> a \<le> e \<and>
            snd (extract_doc_comment t) = take (e + 2 - a) (drop a t)) \<or>
    snd (extract_doc_comment t) = t)"
proof (cases "finditer_doc t 0 = []")
  case False
  obtain a b where ab: "last (finditer_doc t 0) = (a, b)" by (cases "last (finditer_doc t 0)")
  from False ab have mem: "(a, b) \<in> set (finditer_doc t 0)" using last_in_set by metis
  from finditer_mem[OF mem] have sb: "shortest_block t a b"
    by (auto simp: shortest_block_def complete_block_at_def)
  from False ab have r: "snd (extract_doc_comment t) = take (b - a) (drop a t)"
    by (simp add: extract_doc_comment_def group0_def Let_def)
  with mem ab sb show ?thesis by (auto simp: sublist_take_drop)
next
  case True
  note ex = extract_no_match[OF True]
  show ?thesis
  proof (cases "py_rfind t (lit ''/**'') \<noteq> - 1 \<and>
      py_find t (lit ''*/'') (py_rfind t (lit ''/**'')) \<noteq> - 1")
    case False
    with ex have "snd (extract_doc_comment t) = t" by auto
    then show ?thesis by simp
  next
    case yes: True
    then obtain a where a: "find_last (lit ''/**'') t = Some a"
      by (auto simp: py_rfind_def split: option.splits)
    then have rf: "py_rfind t (lit ''/**'') = int a" by (simp add: py_rfind_def)
    from yes rf obtain e where e: "find_from (lit ''*/'') t a = Some e"
      by (auto simp: py_find_def split: option.splits)
    note fe = find_from_Some[OF e]
    from occurs_at_bound[OF fe(2)] have bound: "e + 2 \<le> length t" by simp
    have pf: "py_find t (lit ''*/'') (int a) = int e" by (rule py_find_from[OF e])
    have sl: "py_slice t (int a) (int e + 2) = take (e + 2 - a) (drop a t)"
      by (rule py_slice_span[OF fe(1) bound])
    have r: "snd (extract_doc_comment t) = take (e + 2 - a) (drop a t)"
      by (simp add: ex rf pf sl del: lit_start lit_end)
    from find_last_Some[OF a] have "occurs_at (lit ''/**'') t a" by simp
    with r fe(1) fe(2) have "\<exists>a e. occurs_at (lit ''/**'') t a \<and> occurs_at (lit ''*/'') t e \<and> a \<le> e \<and>
            snd (extract_doc_comment t) = take (e + 2 - a) (drop a t)" by blast
    moreover have "sublist (snd (extract_doc_comment t)) t" by (simp only: r sublist_take_drop)
    ultimately show ?thesis by blast
  qed
qed

lemma extract_passthrough:
  assumes "\<not> sublist (lit ''/**'') t"
  shows "extract_doc_comment t = ([ExtractWarning], t)"
proof -
  from assms have no: "\<And>i. \<not> occurs_at (lit ''/**'') t i" by (simp add: sublist_iff_occurs)
  then have nil: "finditer_doc t 0 = []" by (simp add: finditer_Nil_iff complete_block_at_def)
  have "find_last (lit ''/**'') t = None"
  proof (cases "find_last (lit ''/**'') t")
    case (Some i)
    from find_last_Some[OF Some] no show ?thesis by blast
  qed simp
  then have "py_rfind t (lit ''/**'') = - 1" by (simp add: py_rfind_def)
  then show ?thesis by (simp add: extract_no_match[OF nil])
qed

lemma find_last_is_last:
  assumes "find_last sub t = Some a" "sub \<noteq> []"
  shows "occurs_at sub t a" and "\<forall>j>a. \<not> occurs_at sub t j"
proof -
  from find_last_Some[OF assms(1)] show "occurs_at sub t a" by simp
  show "\<forall>j>a. \<not> occurs_at sub t j"
  proof (intro allI impI)
    fix j assume "a < j"
    show "\<not> occurs_at sub t j"
    proof (cases "j \<le> length t")
      case True
      with find_last_Some[OF assms(1)] \<open>a < j\<close> show ?thesis by blast
    next
      case False
      with assms(2) show ?thesis by (simp add: occurs_at_def)
    qed
  qed
qed

text \<open>Claim C1 at a text with two blocks: the second one is returned.\<close>

theorem extract_last_block_witness:
  "complete_block_at (lit ''/** a */ x /** b */ y'') 0 6 \<and>
   extract_doc_comment (lit ''/** a */ x /** b */ y'') = ([], lit ''/** b */'')"
proof -
  let ?t = "lit ''/** a */ x /** b */ y''"
  have h: "complete_block_at ?t 0 6"
    by (simp add: complete_block_at_def occurs_at_def lit_def)
  have fi: "finditer_doc ?t 0 = [(0, 8), (11, 19)]"
    by (simp add: finditer_doc.simps find_from_def lit_def)
  from extract_last_block[OF h] obtain a b where
    "last (finditer_doc ?t 0) = (a, b)"
    "extract_doc_comment ?t = ([], take (b - a) (drop a ?t))" by blast
  with fi have "extract_doc_comment ?t = ([], take 8 (drop 11 ?t))" by simp
  then have "extract_doc_comment ?t = ([], lit ''/** b */'')" by (simp add: lit_def)
  with h show ?thesis by simp
qed

text \<open>Claim C7 at a text in which the two markers share a star.\<close>

theorem extract_fallback_span_witness:
  "(\<forall>s e. \<not> complete_block_at (lit ''x/**/y'') s e) \<and>
   occurs_at (lit ''/**'') (lit ''x/**/y'') 1 \<and>
   find_last (lit ''/**'') (lit ''x/**/y'') = Some 1 \<and>
   occurs_at (lit ''*/'') (lit ''x/**/y'') 3 \<and>
   extract_doc_comment (lit ''x/**/y'') = ([ExtractWarning], lit ''/**/'')"
proof -
  let ?t = "lit ''x/**/y''"
  have "finditer_doc ?t 0 = []"
    by (simp add: finditer_doc.simps find_from_def lit_def)
  then have nb: "\<forall>s e. \<not> complete_block_at ?t s e" by (simp add: finditer_Nil_iff)
  have fl: "find_last (lit ''/**'') ?t = Some 1" by (simp add: lit_def)
  have st1: "occurs_at (lit ''/**'') ?t 1" by (simp add: occurs_at_def lit_def)
  have st2: "\<forall>j>1. \<not> occurs_at (lit ''/**'') ?t j"
    using find_last_is_last(2)[OF fl] by simp
  have en: "occurs_at (lit ''*/'') ?t 3" by (simp add: occurs_at_def lit_def)
  from extract_fallback_span[OF nb st1 st2 en] obtain e0 where
    e0: "1 \<le> e0" "e0 \<le> 3" "occurs_at (lit ''*/'') ?t e0"
    "extract_doc_comment ?t = ([ExtractWarning], take (e0 + 2 - 1) (drop 1 ?t))" by auto
  from e0(1,2) consider "e0 = 1" | "e0 = 2" | "e0 = 3" by linarith
  then have "e0 = 3"
  proof cases
    case 1 with e0(3) show ?thesis by (simp add: occurs_at_def lit_def)
  next
    case 2 with e0(3) show ?thesis by (simp add: occurs_at_def lit_def)
  qed
  with e0(4) have "extract_doc_comment ?t = ([ExtractWarning], lit ''/**/'')"
    by (simp add: lit_def)
  with nb st1 fl en show ?thesis by blast
qed

text \<open>Claim C10 at a text with one block.\<close>

theorem extract_is_substring_witness:
  "sublist (snd (extract_doc_comment (lit ''a /** b */ c''))) (lit ''a /** b */ c'') \<and>
   snd (extract_doc_comment (lit ''a /** b */ c'')) = lit ''/** b */''"
proof -
  let ?t = "lit ''a /** b */ c''"
  have fi: "finditer_doc ?t 0 = [(2, 10)]"
    by (simp add: finditer_doc.simps find_from_def lit_def)
  then have "snd (extract_doc_comment ?t) = lit ''/** b */''"
    by (simp add: extract_doc_comment_def group0_def lit_def)
  with extract_is_substring[of ?t] show ?thesis by blast
qed

section \<open>Properties of the merge\<close>


lemma py_strip_Nil_iff: "py_strip l = [] \<longleftrightarrow> blank l"
proof
  assume "py_strip l = []"
  then have a: "\<forall>x \<in> set (dropWhile py_isspace l). py_isspace x"
    by (simp add: py_strip_def py_rstrip_def py_lstrip_def dropWhile_eq_Nil_conv)
  have "dropWhile py_isspace l = []"
  proof (rule ccontr)
    assume ne: "dropWhile py_isspace l \<noteq> []"
    then have "\<not> py_isspace (hd (dropWhile py_isspace l))" by (rule hd_dropWhile)
    moreover from ne have "hd (dropWhile py_isspace l) \<in> set (dropWhile py_isspace l)" by simp
    ultimately show False using a by blast
  qed
  then show "blank l" by (simp add: blank_def dropWhile_eq_Nil_conv list_all_iff)
next
  assume "blank l"
  then have d: "dropWhile py_isspace l = []" by (simp add: blank_def list_all_iff)
  show "py_strip l = []" unfolding py_strip_def py_rstrip_def py_lstrip_def d by simp
qed

lemma leading_whitespace:
  assumes "\<not> blank l"
  shows "\<exists>body. l = takeWhile py_isspace l @ body \<and> body \<noteq> [] \<and> \<not> py_isspace (hd body)"
proof -
  let ?b = "dropWhile py_isspace l"
  from assms have ne: "?b \<noteq> []" by (simp add: blank_def dropWhile_eq_Nil_conv list_all_iff)
  then have "\<not> py_isspace (hd ?b)" by (rule hd_dropWhile)
  with ne show ?thesis by (intro exI[of _ ?b]) simp
qed

lemma first_indent_all_blank: "list_all blank ls \<Longrightarrow> first_indent ls = []"
  by (induction ls) (simp_all add: py_strip_Nil_iff)

lemma first_indent_first_nonblank:
  "\<not> list_all blank ls \<Longrightarrow>
   \<exists>pre l rest. ls = pre @ l # rest \<and> list_all blank pre \<and> \<not> blank l \<and>
      first_indent ls = takeWhile py_isspace l"
proof (induction ls)
  case Nil
  then show ?case by simp
next
  case (Cons x xs)
  show ?case
  proof (cases "blank x")
    case False
    then have "first_indent (x # xs) = takeWhile py_isspace x" by (simp add: py_strip_Nil_iff)
    with False show ?thesis by (intro exI[of _ "[]"] exI[of _ x] exI[of _ xs]) simp
  next
    case True
    with Cons.prems have "\<not> list_all blank xs" by simp
    from Cons.IH[OF this] obtain pre l rest where
      p: "xs = pre @ l # rest" "list_all blank pre" "\<not> blank l"
        "first_indent xs = takeWhile py_isspace l" by blast
    from True p(4) have "first_indent (x # xs) = takeWhile py_isspace l"
      by (simp add: py_strip_Nil_iff)
    with p True show ?thesis
      by (intro exI[of _ "x # pre"] exI[of _ l] exI[of _ rest]) simp
  qed
qed

text \<open>
  Claim C2.  \<open>insert_doc_comment\<close> returns the lines of the doc comment, each non-blank one
  prefixed with the indent and the blank ones as they are, joined by newlines, then one
  newline, then the method text unchanged.  The indent is whitespace only; it is empty
  when every line of the method text is blank, and otherwise it is the whole leading
  whitespace of the first non-blank line: that line is the indent followed by a
  character that is not whitespace.
\<close>

theorem insert_doc_comment_merge:
  "\<exists>indent.
     insert_doc_comment src doc =
       py_join (lit ''\<newline>'')
         (map (\<lambda>l. if blank l then l else indent @ l) (py_splitlines doc))
       @ lit ''\<newline>'' @ src \<and>
     suffix src (insert_doc_comment src doc) \<and>
     list_all py_isspace indent \<and>
     (list_all blank (py_splitlines src) \<longrightarrow> indent = []) \<and>
     (\<not> list_all blank (py_splitlines src) \<longrightarrow>
        (\<exists>pre l rest body. py_splitlines src = pre @ l # rest \<and> list_all blank pre \<and>
           l = indent @ body \<and> body \<noteq> [] \<and> \<not> py_isspace (hd body)))"
proof -
  let ?ind = "first_indent (py_splitlines src)"
  have eq: "insert_doc_comment src doc =
       py_join (lit ''\<newline>'')
         (map (\<lambda>l. if blank l then l else ?ind @ l) (py_splitlines doc))
       @ lit ''\<newline>'' @ src"
  proof -
    have sw: "\<And>P (a::pystr) b. (if \<not> P then a else b) = (if P then b else a)" by simp
    show ?thesis by (simp add: insert_doc_comment_def Let_def py_strip_Nil_iff sw)
  qed
  then have suf: "suffix src (insert_doc_comment src doc)"
    by (metis suffixI append_assoc)
  have ws: "list_all py_isspace ?ind"
  proof (cases "list_all blank (py_splitlines src)")
    case True
    then show ?thesis by (simp add: first_indent_all_blank)
  next
    case False
    from first_indent_first_nonblank[OF this] obtain l where
      "?ind = takeWhile py_isspace l" by blast
    then show ?thesis by (simp add: list_all_iff) (metis set_takeWhileD)
  qed
  have nb: "\<exists>pre l rest body. py_splitlines src = pre @ l # rest \<and> list_all blank pre \<and>
           l = ?ind @ body \<and> body \<noteq> [] \<and> \<not> py_isspace (hd body)"
    if "\<not> list_all blank (py_splitlines src)"
  proof -
    from first_indent_first_nonblank[OF that] obtain pre l rest where
      p: "py_splitlines src = pre @ l # rest" "list_all blank pre" "\<not> blank l"
        "?ind = takeWhile py_isspace l" by blast
    from leading_whitespace[OF p(3)] p(4) obtain body where
      "l = ?ind @ body" "body \<noteq> []" "\<not> py_isspace (hd body)" by auto
    with p(1,2) show ?thesis by blast
  qed
  from eq suf ws nb first_indent_all_blank show ?thesis by blast
qed

lemma takeWhile_unique:
  assumes "list_all P i" "b \<noteq> []" "\<not> P (hd b)"
  shows "takeWhile P (i @ b) = i"
proof -
  from assms(2) obtain x bs where b: "b = x # bs" by (cases b) auto
  with assms(3) have "takeWhile P (i @ b) = takeWhile P i" by (simp add: takeWhile_tail)
  also from assms(1) have "\<dots> = i" by (simp add: list_all_iff)
  finally show ?thesis .
qed

text \<open>Claim C2 at a method indented by four spaces and a comment with a blank line.\<close>

theorem insert_doc_comment_merge_witness:
  "insert_doc_comment (lit ''    void f() {}'') (lit ''/**\<newline> * x\<newline>\<newline> */'') =
     lit ''    /**\<newline>     * x\<newline>\<newline>     */\<newline>    void f() {}''"
proof -
  let ?src = "lit ''    void f() {}''"
  let ?doc = "lit ''/**\<newline> * x\<newline>\<newline> */''"
  have sl: "py_splitlines ?src = [?src]"
    by (simp add: py_splitlines_def lit_def py_islinebreak_def)
  have dl: "py_splitlines ?doc = [lit ''/**'', lit '' * x'', [], lit '' */'']"
    by (simp add: py_splitlines_def lit_def py_islinebreak_def)
  have nb: "\<not> list_all blank (py_splitlines ?src)"
    unfolding sl by (simp add: blank_def lit_def py_isspace_def)
  from insert_doc_comment_merge[of ?src ?doc] obtain indent where
    r: "insert_doc_comment ?src ?doc =
       py_join (lit ''\<newline>'') (map (\<lambda>l. if blank l then l else indent @ l) (py_splitlines ?doc))
       @ lit ''\<newline>'' @ ?src"
    and ws: "list_all py_isspace indent"
    and ex: "\<not> list_all blank (py_splitlines ?src) \<longrightarrow>
        (\<exists>pre l rest body. py_splitlines ?src = pre @ l # rest \<and> list_all blank pre \<and>
           l = indent @ body \<and> body \<noteq> [] \<and> \<not> py_isspace (hd body))"
    by blast
  from ex nb sl obtain pre l rest body where
    p: "[?src] = pre @ l # rest" "l = indent @ body" "body \<noteq> []" "\<not> py_isspace (hd body)"
    by auto
  from p(1) have "l = ?src" by (cases pre) auto
  with p(2) have "takeWhile py_isspace ?src = takeWhile py_isspace (indent @ body)" by simp
  also have "\<dots> = indent" by (rule takeWhile_unique[OF ws p(3) p(4)])
  finally have ind: "indent = lit ''    ''" by (simp add: lit_def py_isspace_def)
  show ?thesis unfolding r dl ind by (simp add: lit_def blank_def py_isspace_def)
qed

section \<open>Properties of the reassembly\<close>










section \<open>Properties of the fenced code block\<close>




lemma first_some_head: "f x = Some y \<Longrightarrow> first_some f (x # xs) = Some y"
  by simp



















section \<open>Properties of the driver loop\<close>

lemma map_of_dict_set:
  "map_of (dict_set k v d) k' = (if k' = k then Some v else map_of d k')"
  by (induction d) auto

lemma keys_dict_set: "set (map fst (dict_set k v d)) = insert k (set (map fst d))"
proof (induction d)
  case Nil
  then show ?case by simp
next
  case (Cons p d)
  obtain k' v' where p: "p = (k', v')" by (cases p)
  with Cons show ?case by (cases "k' = k") auto
qed

lemma distinct_dict_set: "distinct (map fst d) \<Longrightarrow> distinct (map fst (dict_set k v d))"
proof (induction d)
  case Nil
  then show ?case by simp
next
  case (Cons p d)
  obtain k' v' where p: "p = (k', v')" by (cases p)
  show ?case
  proof (cases "k' = k")
    case True
    with Cons.prems p show ?thesis by simp
  next
    case False
    with Cons p keys_dict_set[of k v d] show ?thesis by auto
  qed
qed

lemma single_entry:
  "distinct (map fst d) \<Longrightarrow> map_of d k = Some v \<Longrightarrow> filter (\<lambda>p. fst p = k) d = [(k, v)]"
proof (induction d)
  case Nil
  then show ?case by simp
next
  case (Cons p d)
  obtain k' v' where p: "p = (k', v')" by (cases p)
  show ?case
  proof (cases "k' = k")
    case True
    with Cons.prems p have "v' = v" and "k \<notin> fst ` set d" by auto
    then have "filter (\<lambda>p. fst p = k) d = []" by (auto simp: filter_empty_conv)
    with True p \<open>v' = v\<close> show ?thesis by simp
  next
    case False
    with Cons p show ?thesis by simp
  qed
qed

lemma process_node_skipped:
  assumes "skipped a n e"
  shows "\<exists>st'. process_node W a st (n, e) = Inr st' \<and>
           generated_doc_comments st' = generated_doc_comments st"
  using assms by (auto simp: process_node_def skipped_def Let_def)

lemma process_node_processed:
  assumes "\<not> skipped a n e" "generate_doc_comment W (reply e) = (evs, Inr t)"
  shows "process_node W a st (n, e) =
     Inr \<lparr>generated_doc_comments =
            dict_set (method_source_code n)
              (insert_doc_comment (method_source_code n) (snd (extract_doc_comment t)))
              (generated_doc_comments st),
          printed = printed st @ (if guided a then [AskGenerate (name n)] else []) @ evs @
            [RawOutput t] @ fst (extract_doc_comment t) @
            (if \<not> prefix (lit ''/**'') (py_strip (snd (extract_doc_comment t)))
             then [NotStandardWarning (name n)] else []) @ [Generated (name n)]\<rparr>"
proof -
  from assms(1) have c: "\<not> truthy (doc_comment n)" "\<not> (guided a \<and> \<not> says_yes (answer e))"
    "\<not> (2048 < tokens e \<and> \<not> (gpt4 a \<or> gpt3_5_16k a))" by (auto simp: skipped_def)
  show ?thesis unfolding process_node_def Let_def fst_conv snd_conv
    by (simp only: c if_False assms(2) prod.case sum.case)
qed

lemma process_node_raises:
  assumes "\<not> skipped a n e" "generate_doc_comment W (reply e) = (evs, Inl err)"
  shows "process_node W a st (n, e) = Inl err"
  using assms by (simp add: process_node_def skipped_def Let_def)

lemma process_node_keys:
  assumes "process_node W a st x = Inr st'" "distinct (map fst (generated_doc_comments st))"
  shows "distinct (map fst (generated_doc_comments st'))"
proof -
  obtain n e where x: "x = (n, e)" by (cases x)
  show ?thesis
  proof (cases "skipped a n e")
    case True
    from process_node_skipped[OF True, of W st] assms x show ?thesis by auto
  next
    case False
    obtain evs r where g: "generate_doc_comment W (reply e) = (evs, r)"
      by (cases "generate_doc_comment W (reply e)")
    show ?thesis
    proof (cases r)
      case (Inl err)
      with process_node_raises[OF False, of W evs err st] g assms(1) x show ?thesis by simp
    next
      case (Inr t)
      with process_node_processed[OF False, of W evs t st] g assms x show ?thesis
        by (auto simp: distinct_dict_set)
    qed
  qed
qed

lemma run_loop_keys:
  "run_loop W a st xs = Inr st' \<Longrightarrow> distinct (map fst (generated_doc_comments st)) \<Longrightarrow>
   distinct (map fst (generated_doc_comments st'))"
proof (induction xs arbitrary: st)
  case Nil
  then show ?case by simp
next
  case (Cons x xs)
  from Cons.prems(1) obtain st1 where s: "process_node W a st x = Inr st1"
    "run_loop W a st1 xs = Inr st'" by (auto split: sum.splits)
  from process_node_keys[OF s(1) Cons.prems(2)] Cons.IH[OF s(2)] show ?case by blast
qed

lemma run_loop_append:
  "run_loop W a st (xs @ ys) =
     (case run_loop W a st xs of Inl err \<Rightarrow> Inl err | Inr st' \<Rightarrow> run_loop W a st' ys)"
  by (induction xs arbitrary: st) (auto split: sum.splits)

lemma run_loop_other_keys:
  assumes "run_loop W a st xs = Inr st'"
    and "\<forall>x \<in> set xs. \<not> skipped a (fst x) (snd x) \<longrightarrow> method_source_code (fst x) \<noteq> k"
  shows "map_of (generated_doc_comments st') k = map_of (generated_doc_comments st) k"
  using assms
proof (induction xs arbitrary: st)
  case Nil
  then show ?case by simp
next
  case (Cons x xs)
  obtain n e where x: "x = (n, e)" by (cases x)
  from Cons.prems(1) obtain st1 where s: "process_node W a st x = Inr st1"
    "run_loop W a st1 xs = Inr st'" by (auto split: sum.splits)
  have one: "map_of (generated_doc_comments st1) k = map_of (generated_doc_comments st) k"
  proof (cases "skipped a n e")
    case True
    from process_node_skipped[OF True, of W st] s(1) x show ?thesis by auto
  next
    case False
    with Cons.prems(2) x have ne: "method_source_code n \<noteq> k" by simp
    obtain evs r where g: "generate_doc_comment W (reply e) = (evs, r)"
      by (cases "generate_doc_comment W (reply e)")
    show ?thesis
    proof (cases r)
      case (Inl err)
      with process_node_raises[OF False, of W evs err st] g s(1) x show ?thesis by simp
    next
      case (Inr t)
      with process_node_processed[OF False, of W evs t st] g s(1) x ne show ?thesis
        by (auto simp: map_of_dict_set)
    qed
  qed
  from Cons.IH[OF s(2)] Cons.prems(2) one show ?case by simp
qed

lemma run_loop_total:
  assumes "\<forall>x \<in> set xs. skipped a (fst x) (snd x) \<or>
             (\<exists>t. snd (generate_doc_comment W (reply (snd x))) = Inr t)"
  shows "\<exists>st'. run_loop W a st xs = Inr st'"
  using assms
proof (induction xs arbitrary: st)
  case Nil
  then show ?case by simp
next
  case (Cons x xs)
  obtain n e where x: "x = (n, e)" by (cases x)
  have "\<exists>st1. process_node W a st x = Inr st1"
  proof (cases "skipped a n e")
    case True
    from process_node_skipped[OF True, of W st] x show ?thesis by auto
  next
    case False
    with Cons.prems x obtain t where "snd (generate_doc_comment W (reply e)) = Inr t" by auto
    then obtain evs where "generate_doc_comment W (reply e) = (evs, Inr t)"
      by (cases "generate_doc_comment W (reply e)") auto
    from process_node_processed[OF False this, of st] x show ?thesis by simp
  qed
  then obtain st1 where s: "process_node W a st x = Inr st1" by blast
  from Cons.IH[of st1] Cons.prems obtain st' where "run_loop W a st1 xs = Inr st'" by auto
  with s show ?case by simp
qed



lemma deepseek_failure_returns_empty:
  assumes "outcome = PostRaised \<or> outcome = StatusRaised raw"
  shows "snd (DeepseekLLM_run W outcome) = []"
  using assms by (auto simp: DeepseekLLM_run_def)


lemma sublist_py_strip: "sublist (py_strip t) t"
proof -
  have "prefix (py_strip t) (dropWhile py_isspace t)"
    unfolding py_strip_def py_rstrip_def py_lstrip_def
    by (metis suffix_dropWhile suffix_to_prefix rev_rev_ident)
  moreover have "suffix (dropWhile py_isspace t) t" by (rule suffix_dropWhile)
  ultimately show ?thesis by (metis sublist_altdef')
qed

text \<open>
  Claim C8.  For an answer that contains neither \<open>/**\<close> nor \<open>*/\<close>, \<open>extract_doc_comment\<close>
  prints its warning and returns the answer unchanged; the loop prints its own warning,
  merges the answer with the method text and records the entry.
\<close>

theorem passthrough_still_merges:
  assumes "\<not> sublist (lit ''/**'') t" and "\<not> sublist (lit ''*/'') t"
    and "\<not> skipped a n e" and "generate_doc_comment W (reply e) = (evs, Inr t)"
  shows "extract_doc_comment t = ([ExtractWarning], t) \<and>
         (\<exists>st'. process_node W a st (n, e) = Inr st' \<and>
            generated_doc_comments st' =
              dict_set (method_source_code n) (insert_doc_comment (method_source_code n) t)
                (generated_doc_comments st) \<and>
            ExtractWarning \<in> set (printed st') \<and>
            NotStandardWarning (name n) \<in> set (printed st'))"
proof -
  have ex: "extract_doc_comment t = ([ExtractWarning], t)"
    by (rule extract_passthrough[OF assms(1)])
  have np: "\<not> prefix (lit ''/**'') (py_strip t)"
  proof
    assume "prefix (lit ''/**'') (py_strip t)"
    then have "sublist (lit ''/**'') (py_strip t)" by (rule prefix_imp_sublist)
    with sublist_py_strip[of t] have "sublist (lit ''/**'') t"
      using sublist_order.order_trans by blast
    with assms(1) show False by contradiction
  qed
  from process_node_processed[OF assms(3,4), of st] ex np
  show ?thesis by (simp del: lit_start)
qed

text \<open>
  Claim C9.  In a run in which no call of the back end raises, take a node that reaches
  the back end and is the last such node with its method text.  The loop ends without an
  error, and the dictionary has exactly one entry keyed by that text: its value is the
  merged text computed for this node, whatever earlier nodes with the same text left.
\<close>

theorem last_writer_wins:
  assumes ok: "\<forall>x \<in> set (pre @ (n, e) # post). skipped a (fst x) (snd x) \<or>
             (\<exists>t. snd (generate_doc_comment W (reply (snd x))) = Inr t)"
    and ns: "\<not> skipped a n e"
    and g: "generate_doc_comment W (reply e) = (evs, Inr t)"
    and later: "\<forall>x \<in> set post. \<not> skipped a (fst x) (snd x) \<longrightarrow>
             method_source_code (fst x) \<noteq> method_source_code n"
  shows "\<exists>st. run_loop W a \<lparr>generated_doc_comments = [], printed = []\<rparr> (pre @ (n, e) # post) = Inr st \<and>
           filter (\<lambda>p. fst p = method_source_code n) (generated_doc_comments st) =
             [(method_source_code n,
               insert_doc_comment (method_source_code n) (snd (extract_doc_comment t)))]"
proof -
  let ?st0 = "\<lparr>generated_doc_comments = [], printed = []\<rparr>"
  let ?k = "method_source_code n"
  let ?v = "insert_doc_comment ?k (snd (extract_doc_comment t))"
  from run_loop_total[OF ok, of ?st0] obtain st where
    st: "run_loop W a ?st0 (pre @ (n, e) # post) = Inr st" by blast
  then obtain st1 where st1: "run_loop W a ?st0 pre = Inr st1"
    and rest: "run_loop W a st1 ((n, e) # post) = Inr st"
    by (auto simp: run_loop_append split: sum.splits)
  from rest obtain st2 where st2: "process_node W a st1 (n, e) = Inr st2"
    and post: "run_loop W a st2 post = Inr st" by (auto split: sum.splits)
  from process_node_processed[OF ns g, of st1] st2
  have "generated_doc_comments st2 = dict_set ?k ?v (generated_doc_comments st1)" by auto
  then have "map_of (generated_doc_comments st2) ?k = Some ?v" by (simp add: map_of_dict_set)
  with run_loop_other_keys[OF post later]
  have m: "map_of (generated_doc_comments st) ?k = Some ?v" by simp
  have "distinct (map fst (generated_doc_comments st))"
    by (rule run_loop_keys[OF st]) simp
  from single_entry[OF this m] st show ?thesis by blast
qed

lemma not_sublist_if_find_first_None: "find_first sub t = None \<Longrightarrow> \<not> sublist sub t"
  using find_first_None by (auto simp: sublist_iff_occurs)



text \<open>Claim C8 at an answer without markers.\<close>

theorem passthrough_still_merges_witness:
  "extract_doc_comment (lit ''no comment'') = ([ExtractWarning], lit ''no comment'') \<and>
   (\<exists>st'. process_node ascii_word \<lparr>guided = False, gpt4 = False, gpt3_5_16k = False\<rparr>
            \<lparr>generated_doc_comments = [], printed = []\<rparr>
            (\<lparr>name = lit ''f'', doc_comment = None, method_source_code = lit ''void f() {}''\<rparr>,
             \<lparr>answer = [], tokens = 5, reply = Chain (Some (lit ''no comment''))\<rparr>) = Inr st' \<and>
          generated_doc_comments st' =
            [(lit ''void f() {}'',
              insert_doc_comment (lit ''void f() {}'') (lit ''no comment''))] \<and>
          ExtractWarning \<in> set (printed st'))"
proof -
  let ?a = "\<lparr>guided = False, gpt4 = False, gpt3_5_16k = False\<rparr>"
  let ?n = "\<lparr>name = lit ''f'', doc_comment = None, method_source_code = lit ''void f() {}''\<rparr>"
  let ?e = "\<lparr>answer = [], tokens = 5, reply = Chain (Some (lit ''no comment''))\<rparr>"
  let ?t = "lit ''no comment''"
  have "find_first (lit ''/**'') ?t = None" by (simp add: lit_def)
  then have h1: "\<not> sublist (lit ''/**'') ?t" by (rule not_sublist_if_find_first_None)
  have "find_first (lit ''*/'') ?t = None" by (simp add: lit_def)
  then have h2: "\<not> sublist (lit ''*/'') ?t" by (rule not_sublist_if_find_first_None)
  have ns: "\<not> skipped ?a ?n ?e" by (simp add: skipped_def truthy_def)
  have g: "generate_doc_comment ascii_word (reply ?e) = ([], Inr ?t)"
    by (simp add: generate_doc_comment_def)
  from passthrough_still_merges[OF h1 h2 ns g, of "\<lparr>generated_doc_comments = [], printed = []\<rparr>"]
  show ?thesis by auto
qed

text \<open>Claim C9 at two nodes with the same method text and different answers.\<close>

theorem last_writer_wins_witness:
  "\<exists>st. run_loop ascii_word \<lparr>guided = False, gpt4 = False, gpt3_5_16k = False\<rparr>
           \<lparr>generated_doc_comments = [], printed = []\<rparr>
           [(\<lparr>name = lit ''f'', doc_comment = None, method_source_code = lit ''int f;''\<rparr>,
             \<lparr>answer = [], tokens = 5, reply = Chain (Some (lit ''/** a */''))\<rparr>),
            (\<lparr>name = lit ''f'', doc_comment = None, method_source_code = lit ''int f;''\<rparr>,
             \<lparr>answer = [], tokens = 5, reply = Chain (Some (lit ''/** b */''))\<rparr>)] = Inr st \<and>
         filter (\<lambda>p. fst p = lit ''int f;'') (generated_doc_comments st) =
           [(lit ''int f;'', lit ''/** b */\<newline>int f;'')]"
proof -
  let ?a = "\<lparr>guided = False, gpt4 = False, gpt3_5_16k = False\<rparr>"
  let ?n = "\<lparr>name = lit ''f'', doc_comment = None, method_source_code = lit ''int f;''\<rparr>"
  let ?e1 = "\<lparr>answer = [], tokens = 5, reply = Chain (Some (lit ''/** a */''))\<rparr>"
  let ?e2 = "\<lparr>answer = [], tokens = 5, reply = Chain (Some (lit ''/** b */''))\<rparr>"
  have ok: "\<forall>x \<in> set ([(?n, ?e1)] @ (?n, ?e2) # []). skipped ?a (fst x) (snd x) \<or>
             (\<exists>t. snd (generate_doc_comment ascii_word (reply (snd x))) = Inr t)"
    by (simp add: generate_doc_comment_def)
  have ns: "\<not> skipped ?a ?n ?e2" by (simp add: skipped_def truthy_def)
  have g: "generate_doc_comment ascii_word (reply ?e2) = ([], Inr (lit ''/** b */''))"
    by (simp add: generate_doc_comment_def)
  have later: "\<forall>x \<in> set []. \<not> skipped ?a (fst x) (snd x) \<longrightarrow>
             method_source_code (fst x) \<noteq> method_source_code ?n" by simp
  have fi: "finditer_doc (lit ''/** b */'') 0 = [(0, 8)]"
    by (simp add: finditer_doc.simps find_from_def lit_def)
  have ex: "snd (extract_doc_comment (lit ''/** b */'')) = lit ''/** b */''"
    by (simp add: extract_doc_comment_def fi group0_def)
  have v: "insert_doc_comment (lit ''int f;'') (lit ''/** b */'') = lit ''/** b */\<newline>int f;''"
    by (simp add: insert_doc_comment_def py_splitlines_def lit_def py_islinebreak_def
        py_strip_def py_rstrip_def py_lstrip_def py_isspace_def)
  from last_writer_wins[OF ok ns g later] show ?thesis by (simp add: ex v)
qed

section \<open>Properties of the source patcher\<close>







end
